theory Spec2Isabelle
  imports Main
begin

section \<open>The connection pool of pool.go\<close>

text \<open>
  The pool is embedded by explicit state passing. A \<open>*Client\<close> pointer is a natural
  number (the identity of the client object); the \<open>Errored\<close> flags of all clients form a
  store, because the flag is read through the pointer at purge time and may have changed
  since the connection was released. \<open>time.Time\<close> values are points on an integer time
  line (nanoseconds), \<open>time.Duration\<close> is an integer number of nanoseconds,
  \<open>x.Add(d)\<close> is \<open>x + d\<close> and \<open>x.After(y)\<close> is \<open>y < x\<close>. Go's \<open>int\<close> is taken as an
  unbounded integer: \<open>Active\<close> moves by one per operation, so a trace shorter than
  \<open>2^63\<close> operations cannot wrap it. Only one pool is modelled, so the \<open>Pool\<close> field of a
  \<open>PooledConnection\<close> is left out, and the \<open>Client\<close> pointer of a handle is never nil.
\<close>

type_synonym client = nat
type_synonym time = int
type_synonym duration = int

record PooledConnection =
  Client :: client

record idleConnection =
  pc :: PooledConnection
  t :: time

text \<open>The fields of \<open>Pool\<close>; \<open>cond\<close> is true when the condition variable is not nil.
  \<open>Dial\<close> is a collaborator: the outcome of each call is an input of the model, and the
  mutex is the boundary of the atomic sections below.\<close>

record Pool =
  MaxActive :: int
  IdleTimeout :: duration
  idle :: "idleConnection list"
  Active :: int
  cond :: bool

text \<open>Everything the pool reads or touches: the pool itself, the set of clients whose
  \<open>Errored\<close> flag is set, the calls of \<open>Client.Close\<close> in call order, the number of calls of
  \<open>cond.Signal\<close>, and the number of calls of \<open>Dial\<close>.\<close>

record world =
  pool :: Pool
  errored :: "client set"
  closed :: "client list"
  signalled :: nat
  dialed :: nat

text \<open>Modelled from the spec: \<open>Client.Close\<close> is not part of pool.go. The spec says that
  \<open>close\<close> releases the underlying resources of the connection and that the pool sees
  nothing of a connection but its flag and this operation; the call is recorded.\<close>

definition Client_Close :: "client \<Rightarrow> world \<Rightarrow> world" where
  "Client_Close c w = w\<lparr>closed := closed w @ [c]\<rparr>"

text \<open>\<open>first\<close>, lines 127-132.\<close>

definition first :: "Pool \<Rightarrow> idleConnection option" where
  "first p = (if length (idle p) = 0 then None else Some (hd (idle p)))"

text \<open>\<open>put\<close>, lines 87-92; the argument \<open>now\<close> is the reading of \<open>time.Now()\<close>.\<close>

definition put :: "time \<Rightarrow> PooledConnection \<Rightarrow> world \<Rightarrow> world" where
  "put now h w = w\<lparr>pool := (pool w)\<lparr>idle := \<lparr>pc = h, t = now\<rparr> # idle (pool w)\<rparr>\<rparr>"

text \<open>The loop of \<open>purge\<close>, lines 100-112: it runs over the old idle slice, collects
  \<open>valid\<close> and closes expired clients, while \<open>p.idle\<close> is still untouched.\<close>

fun purge_loop ::
  "duration \<Rightarrow> time \<Rightarrow> idleConnection list \<Rightarrow> idleConnection list \<Rightarrow> world
     \<Rightarrow> idleConnection list \<times> world" where
  "purge_loop timeout now [] valid w = (valid, w)"
| "purge_loop timeout now (v # vs) valid w =
     (if Client (pc v) \<in> errored w then purge_loop timeout now vs valid w
      else if now < t v + timeout then purge_loop timeout now vs (valid @ [v]) w
      else purge_loop timeout now vs valid (Client_Close (Client (pc v)) w))"

text \<open>\<open>purge\<close>, lines 96-115.\<close>

definition purge :: "time \<Rightarrow> world \<Rightarrow> world" where
  "purge now w =
     (let timeout = IdleTimeout (pool w) in
      if timeout > 0 then
        (case purge_loop timeout now (idle (pool w)) [] w of
           (valid, w') \<Rightarrow> w'\<lparr>pool := (pool w')\<lparr>idle := valid\<rparr>\<rparr>)
      else w)"

text \<open>\<open>release\<close>, lines 119-125.\<close>

definition release :: "world \<Rightarrow> world" where
  "release w =
     (let w1 = w\<lparr>pool := (pool w)\<lparr>Active := Active (pool w) - 1\<rparr>\<rparr> in
      if cond (pool w1) then w1\<lparr>signalled := signalled w1 + 1\<rparr> else w1)"

text \<open>\<open>PooledConnection.Close\<close>, lines 136-142.\<close>

definition Close :: "time \<Rightarrow> PooledConnection \<Rightarrow> world \<Rightarrow> world" where
  "Close now h w = release (put now h w)"

text \<open>What one pass through the body of the wait loop of \<open>Get\<close> decides while it holds the
  mutex: hand out the front idle connection, dial, or wait.\<close>

datatype decision = Reuse PooledConnection | Dial | Wait

text \<open>One pass through the loop body, lines 42-82, up to the point where the mutex is
  given up (\<open>Unlock\<close> or \<open>cond.Wait\<close>). \<open>append(p.idle[:0], p.idle[1:]...)\<close> shifts the
  slice left by one, which leaves its tail.\<close>

definition Get_locked :: "world \<Rightarrow> world \<times> decision" where
  "Get_locked w =
     (case first (pool w) of
        Some conn \<Rightarrow>
          (w\<lparr>pool := (pool w)\<lparr>idle := tl (idle (pool w)), Active := Active (pool w) + 1\<rparr>\<rparr>,
           Reuse \<lparr>Client = Client (pc conn)\<rparr>)
      | None \<Rightarrow>
          if MaxActive (pool w) = 0 \<or> Active (pool w) < MaxActive (pool w)
          then (w\<lparr>pool := (pool w)\<lparr>Active := Active (pool w) + 1\<rparr>\<rparr>, Dial)
          else (w\<lparr>pool := (pool w)\<lparr>cond := True\<rparr>\<rparr>, Wait))"

text \<open>What \<open>Get\<close> gives its caller: a handle, the error of the dial, or nothing at all
  because the goroutine stays parked in \<open>cond.Wait\<close>.\<close>

datatype 'e result = Handle PooledConnection | DialError 'e | Blocked

text \<open>The dial and what follows it, lines 64-73. The outcome of \<open>dial()\<close> is the
  argument: \<open>Inl err\<close> is a failure, \<open>Inr dc\<close> a new client.\<close>

definition Get_dial :: "'e + client \<Rightarrow> world \<Rightarrow> world \<times> 'e result" where
  "Get_dial d w =
     (let w1 = w\<lparr>dialed := dialed w + 1\<rparr> in
      case d of
        Inl err \<Rightarrow> (release w1, DialError err)
      | Inr dc \<Rightarrow> (w1, Handle \<lparr>Client = dc\<rparr>))"

text \<open>The wait loop, lines 42-83. \<open>cond.Wait\<close> returns only after a \<open>Signal\<close>. The list
  holds, for each time this goroutine is woken, what the other goroutines did to the
  world while it was parked. When the list is used up the goroutine is never woken
  again: \<open>Get\<close> does not return, which is the result \<open>Blocked\<close>.\<close>

primrec Get_loop :: "(world \<Rightarrow> world) list \<Rightarrow> 'e + client \<Rightarrow> world \<Rightarrow> world \<times> 'e result" where
  "Get_loop [] d w =
     (case Get_locked w of
        (w1, Reuse h) \<Rightarrow> (w1, Handle h)
      | (w1, Dial) \<Rightarrow> Get_dial d w1
      | (w1, Wait) \<Rightarrow> (w1, Blocked))"
| "Get_loop (f # env) d w =
     (case Get_locked w of
        (w1, Reuse h) \<Rightarrow> (w1, Handle h)
      | (w1, Dial) \<Rightarrow> Get_dial d w1
      | (w1, Wait) \<Rightarrow> Get_loop env d (f w1))"

text \<open>\<open>Get\<close>, lines 34-83: purge once, then the wait loop.\<close>

definition Get :: "(world \<Rightarrow> world) list \<Rightarrow> time \<Rightarrow> 'e + client \<Rightarrow> world \<Rightarrow> world \<times> 'e result" where
  "Get env now d w = Get_loop env d (purge now w)"



text \<open>\<open>CreatePool\<close>, lines 144-152: the zero value of every field that is not set.\<close>

definition CreatePool :: "duration \<Rightarrow> Pool" where
  "CreatePool timeout =
     \<lparr>MaxActive = 10, IdleTimeout = timeout, idle = [], Active = 0, cond = False\<rparr>"

subsection \<open>Goroutines sharing the pool\<close>

text \<open>
  The mutex makes every stretch of code between \<open>Lock\<close> and \<open>Unlock\<close> (or \<open>cond.Wait\<close>)
  atomic, so a concurrent execution is a sequence of such stretches, run by any number of
  goroutines. Beside the shared world the system records the handles that callers hold
  (a handle is closed at most once: closing takes it away), the number of dials in flight
  and the number of goroutines parked in \<open>cond.Wait\<close>.
\<close>

datatype 'e event =
    Enter time
  | Wake
  | Dialed "'e + client"
  | Release PooledConnection time
  | Fail client

record sys =
  shared :: world
  held :: "PooledConnection list"
  dialing :: nat
  parked :: nat

text \<open>What becomes of the goroutine after a pass through the loop body.\<close>

definition after_pass :: "sys \<Rightarrow> world \<times> decision \<Rightarrow> sys" where
  "after_pass s r =
     (case r of
        (w1, Reuse h) \<Rightarrow> s\<lparr>shared := w1, held := h # held s\<rparr>
      | (w1, Dial) \<Rightarrow> s\<lparr>shared := w1, dialing := dialing s + 1\<rparr>
      | (w1, Wait) \<Rightarrow> s\<lparr>shared := w1, parked := parked s + 1\<rparr>)"

text \<open>
  The atomic steps. \<open>Enter now\<close>: a goroutine calls \<open>Get\<close>, purges and makes its first
  pass. \<open>Wake\<close>: a parked goroutine makes another pass (it may be woken at any time, which
  covers every order in which \<open>Signal\<close> wakes waiters). \<open>Dialed d\<close>: a dial in flight
  returns \<open>d\<close>. \<open>Release h now\<close>: the holder of \<open>h\<close> calls \<open>Close\<close>. \<open>Fail c\<close>: the
  \<open>Errored\<close> flag of client \<open>c\<close> is set. A step that cannot happen gives \<open>None\<close>.
\<close>

fun step :: "'e event \<Rightarrow> sys \<Rightarrow> sys option" where
  "step (Enter now) s = Some (after_pass s (Get_locked (purge now (shared s))))"
| "step Wake s =
     (if parked s = 0 then None
      else Some (after_pass (s\<lparr>parked := parked s - 1\<rparr>) (Get_locked (shared s))))"
| "step (Dialed d) s =
     (if dialing s = 0 then None
      else (case Get_dial d (shared s) of
              (w1, Handle h) \<Rightarrow> Some (s\<lparr>shared := w1, dialing := dialing s - 1, held := h # held s\<rparr>)
            | (w1, DialError err) \<Rightarrow> Some (s\<lparr>shared := w1, dialing := dialing s - 1\<rparr>)
            | (w1, Blocked) \<Rightarrow> None))"
| "step (Release h now) s =
     (if h \<in> set (held s)
      then Some (s\<lparr>shared := Close now h (shared s), held := remove1 h (held s)\<rparr>)
      else None)"
| "step (Fail c) s =
     Some (s\<lparr>shared := (shared s)\<lparr>errored := insert c (errored (shared s))\<rparr>\<rparr>)"

fun run :: "'e event list \<Rightarrow> sys \<Rightarrow> sys option" where
  "run [] s = Some s"
| "run (e # es) s = (case step e s of None \<Rightarrow> None | Some s' \<Rightarrow> run es s')"

text \<open>A pool that has not been used yet, with no client errored so far.\<close>

definition start :: "Pool \<Rightarrow> sys" where
  "start p =
     \<lparr>shared = \<lparr>pool = p, errored = {}, closed = [], signalled = 0, dialed = 0\<rparr>,
      held = [], dialing = 0, parked = 0\<rparr>"

text \<open>The accounting of the pool: \<open>Active\<close> counts the handles held and the dials in
  flight, \<open>Active\<close> and the idle list together fit under a positive \<open>MaxActive\<close>, and
  a goroutine is parked only when the condition variable exists.\<close>

definition accounted :: "sys \<Rightarrow> bool" where
  "accounted s =
     (Active (pool (shared s)) = int (length (held s)) + int (dialing s)
      \<and> (0 < MaxActive (pool (shared s)) \<longrightarrow>
           Active (pool (shared s)) + int (length (idle (pool (shared s))))
             \<le> MaxActive (pool (shared s)))
      \<and> (0 < parked s \<longrightarrow> cond (pool (shared s))))"

text \<open>The clock readings of the \<open>put\<close> calls of a sequence, in their order.\<close>

fun release_times :: "'e event list \<Rightarrow> time list" where
  "release_times [] = []"
| "release_times (Release h now # es) = now # release_times es"
| "release_times (e # es) = release_times es"

text \<open>An event that brings client \<open>c\<close> back to the pool or to a caller: a handle of \<open>c\<close>
  is released, or a dial returns \<open>c\<close>.\<close>

fun reintroduces :: "client \<Rightarrow> 'e event \<Rightarrow> bool" where
  "reintroduces c (Release h now) = (Client h = c)"
| "reintroduces c (Dialed d) = (d = Inr c)"
| "reintroduces c e = False"

section \<open>Purge\<close>

lemma purge_loop_closed_errored:
  "errored (snd (purge_loop timeout now vs valid w)) = errored w"
  by (induction vs arbitrary: valid w) (simp_all add: Client_Close_def)

lemma purge_loop_pool:
  "pool (snd (purge_loop timeout now vs valid w)) = pool w"
  by (induction vs arbitrary: valid w) (simp_all add: Client_Close_def)

lemma purge_loop_other:
  "signalled (snd (purge_loop timeout now vs valid w)) = signalled w"
  "dialed (snd (purge_loop timeout now vs valid w)) = dialed w"
  by (induction vs arbitrary: valid w) (simp_all add: Client_Close_def)

lemma purge_other:
  "MaxActive (pool (purge now w)) = MaxActive (pool w)"
  "IdleTimeout (pool (purge now w)) = IdleTimeout (pool w)"
  "Active (pool (purge now w)) = Active (pool w)"
  "cond (pool (purge now w)) = cond (pool w)"
  "errored (purge now w) = errored w"
  "signalled (purge now w) = signalled w"
  "dialed (purge now w) = dialed w"
  by (simp_all add: purge_def Let_def split: prod.split)
    (metis purge_loop_pool purge_loop_closed_errored purge_loop_other snd_conv)+

lemma purge_loop_valid:
  "fst (purge_loop timeout now vs valid w) =
     valid @ filter (\<lambda>v. Client (pc v) \<notin> errored w \<and> now < t v + timeout) vs"
proof (induction vs arbitrary: valid w)
  case Nil
  show ?case by simp
next
  case (Cons v vs)
  show ?case by (simp add: Cons.IH Client_Close_def)
qed

lemma purge_keeps:
  "idle (pool (purge now w)) =
     (if IdleTimeout (pool w) \<le> 0 then idle (pool w)
      else filter (\<lambda>v. Client (pc v) \<notin> errored w \<and> now < t v + IdleTimeout (pool w))
             (idle (pool w)))"
proof (cases "IdleTimeout (pool w) \<le> 0")
  case True
  then show ?thesis by (simp add: purge_def)
next
  case False
  obtain valid w' where pl:
    "purge_loop (IdleTimeout (pool w)) now (idle (pool w)) [] w = (valid, w')"
    by (cases "purge_loop (IdleTimeout (pool w)) now (idle (pool w)) [] w")
  have "valid = filter (\<lambda>v. Client (pc v) \<notin> errored w \<and> now < t v + IdleTimeout (pool w))
                  (idle (pool w))"
    using purge_loop_valid [of "IdleTimeout (pool w)" now "idle (pool w)" "[]" w] pl by simp
  with False pl show ?thesis by (simp add: purge_def)
qed

text \<open>
  C5. \<open>purge\<close> leaves the idle list as it is when \<open>IdleTimeout \<le> 0\<close>; when
  \<open>IdleTimeout > 0\<close> the new idle list is the old one filtered, in its order, to the
  entries whose client is not errored and whose timestamp plus \<open>IdleTimeout\<close> is strictly
  after \<open>now\<close>.
\<close>

theorem purge_idle:
  "idle (pool (purge now w)) =
     (if IdleTimeout (pool w) \<le> 0 then idle (pool w)
      else filter (\<lambda>v. Client (pc v) \<notin> errored w \<and> now < t v + IdleTimeout (pool w))
             (idle (pool w)))"
  by (rule purge_keeps)

theorem purge_idle_witness:
  "idle (pool (purge 100
      \<lparr>pool = \<lparr>MaxActive = 10, IdleTimeout = 50,
               idle = [\<lparr>pc = \<lparr>Client = 1\<rparr>, t = 90\<rparr>, \<lparr>pc = \<lparr>Client = 2\<rparr>, t = 80\<rparr>,
                       \<lparr>pc = \<lparr>Client = 3\<rparr>, t = 50\<rparr>, \<lparr>pc = \<lparr>Client = 4\<rparr>, t = 10\<rparr>],
               Active = 0, cond = False\<rparr>,
       errored = {2}, closed = [], signalled = 0, dialed = 0\<rparr>))
   = [\<lparr>pc = \<lparr>Client = 1\<rparr>, t = 90\<rparr>]"
  using purge_idle [of 100
      "\<lparr>pool = \<lparr>MaxActive = 10, IdleTimeout = 50,
               idle = [\<lparr>pc = \<lparr>Client = 1\<rparr>, t = 90\<rparr>, \<lparr>pc = \<lparr>Client = 2\<rparr>, t = 80\<rparr>,
                       \<lparr>pc = \<lparr>Client = 3\<rparr>, t = 50\<rparr>, \<lparr>pc = \<lparr>Client = 4\<rparr>, t = 10\<rparr>],
               Active = 0, cond = False\<rparr>,
       errored = {2}, closed = [], signalled = 0, dialed = 0\<rparr>"]
  by simp

lemma purge_loop_closed:
  "closed (snd (purge_loop timeout now vs valid w)) =
     closed w @ map (\<lambda>v. Client (pc v))
       (filter (\<lambda>v. Client (pc v) \<notin> errored w \<and> t v + timeout \<le> now) vs)"
proof (induction vs arbitrary: valid w)
  case Nil
  show ?case by simp
next
  case (Cons v vs)
  show ?case by (simp add: Cons.IH Client_Close_def not_less)
qed

lemma purge_closes:
  "closed (purge now w) =
     closed w @ (if IdleTimeout (pool w) \<le> 0 then []
        else map (\<lambda>v. Client (pc v))
          (filter (\<lambda>v. Client (pc v) \<notin> errored w \<and> t v + IdleTimeout (pool w) \<le> now)
             (idle (pool w))))"
proof (cases "IdleTimeout (pool w) \<le> 0")
  case True
  then show ?thesis by (simp add: purge_def)
next
  case False
  obtain valid w' where pl:
    "purge_loop (IdleTimeout (pool w)) now (idle (pool w)) [] w = (valid, w')"
    by (cases "purge_loop (IdleTimeout (pool w)) now (idle (pool w)) [] w")
  have "closed w' = closed w @ map (\<lambda>v. Client (pc v))
          (filter (\<lambda>v. Client (pc v) \<notin> errored w \<and> t v + IdleTimeout (pool w) \<le> now)
             (idle (pool w)))"
    using purge_loop_closed [of "IdleTimeout (pool w)" now "idle (pool w)" "[]" w] pl by simp
  with False pl show ?thesis by (simp add: purge_def)
qed

text \<open>
  C6, as amended. In a purge pass with \<open>IdleTimeout > 0\<close>, \<open>Client.Close\<close> is called
  for exactly the entries that are dropped for their age and whose client is not errored,
  in the order of the idle list, and the calls are made by the loop while \<open>p.idle\<close> still
  holds the old list. An entry whose client is errored is dropped without a call.
\<close>

theorem purge_closed:
  "closed (purge now w) =
     closed w @ (if IdleTimeout (pool w) \<le> 0 then []
        else map (\<lambda>v. Client (pc v))
          (filter (\<lambda>v. Client (pc v) \<notin> errored w \<and> t v + IdleTimeout (pool w) \<le> now)
             (idle (pool w))))
   \<and> pool (snd (purge_loop (IdleTimeout (pool w)) now (idle (pool w)) [] w)) = pool w"
  by (simp only: purge_closes purge_loop_pool simp_thms)

theorem purge_closed_witness:
  "closed (purge 100
      \<lparr>pool = \<lparr>MaxActive = 10, IdleTimeout = 50,
               idle = [\<lparr>pc = \<lparr>Client = 1\<rparr>, t = 90\<rparr>, \<lparr>pc = \<lparr>Client = 2\<rparr>, t = 80\<rparr>,
                       \<lparr>pc = \<lparr>Client = 3\<rparr>, t = 50\<rparr>, \<lparr>pc = \<lparr>Client = 4\<rparr>, t = 10\<rparr>],
               Active = 0, cond = False\<rparr>,
       errored = {2, 4}, closed = [], signalled = 0, dialed = 0\<rparr>) = [3]"
  using purge_closed [of 100
      "\<lparr>pool = \<lparr>MaxActive = 10, IdleTimeout = 50,
               idle = [\<lparr>pc = \<lparr>Client = 1\<rparr>, t = 90\<rparr>, \<lparr>pc = \<lparr>Client = 2\<rparr>, t = 80\<rparr>,
                       \<lparr>pc = \<lparr>Client = 3\<rparr>, t = 50\<rparr>, \<lparr>pc = \<lparr>Client = 4\<rparr>, t = 10\<rparr>],
               Active = 0, cond = False\<rparr>,
       errored = {2, 4}, closed = [], signalled = 0, dialed = 0\<rparr>"]
  by simp

text \<open>The claim as it was stated fails: an errored entry is removed and never closed.\<close>

theorem purge_errored_not_closed:
  "\<lparr>pc = \<lparr>Client = 1\<rparr>, t = 90\<rparr> \<in> set (idle (pool
      \<lparr>pool = \<lparr>MaxActive = 10, IdleTimeout = 50, idle = [\<lparr>pc = \<lparr>Client = 1\<rparr>, t = 90\<rparr>],
               Active = 0, cond = False\<rparr>,
       errored = {1}, closed = [], signalled = 0, dialed = 0\<rparr>))
   \<and> idle (pool (purge 100
      \<lparr>pool = \<lparr>MaxActive = 10, IdleTimeout = 50, idle = [\<lparr>pc = \<lparr>Client = 1\<rparr>, t = 90\<rparr>],
               Active = 0, cond = False\<rparr>,
       errored = {1}, closed = [], signalled = 0, dialed = 0\<rparr>)) = []
   \<and> closed (purge 100
      \<lparr>pool = \<lparr>MaxActive = 10, IdleTimeout = 50, idle = [\<lparr>pc = \<lparr>Client = 1\<rparr>, t = 90\<rparr>],
               Active = 0, cond = False\<rparr>,
       errored = {1}, closed = [], signalled = 0, dialed = 0\<rparr>) = []"
  by (simp add: purge_def)

section \<open>Release of a handle\<close>

text \<open>
  C7. \<open>PooledConnection.Close\<close> puts the handle with the timestamp \<open>now\<close> at the front of
  the idle list, takes one from \<open>Active\<close>, and calls \<open>Signal\<close> once when the condition
  variable exists; nothing else changes. The errored flag of the client is not looked at:
  the equation holds for every store of flags.
\<close>

theorem Close_effect:
  "Close now h w =
     w\<lparr>pool := (pool w)\<lparr>idle := \<lparr>pc = h, t = now\<rparr> # idle (pool w),
                         Active := Active (pool w) - 1\<rparr>,
       signalled := signalled w + (if cond (pool w) then 1 else 0)\<rparr>"
  by (simp add: Close_def put_def release_def)

theorem Close_effect_witness:
  "Close 7 \<lparr>Client = 1\<rparr>
      \<lparr>pool = \<lparr>MaxActive = 10, IdleTimeout = 50, idle = [\<lparr>pc = \<lparr>Client = 2\<rparr>, t = 5\<rparr>],
               Active = 2, cond = True\<rparr>,
       errored = {1}, closed = [], signalled = 0, dialed = 2\<rparr>
   = \<lparr>pool = \<lparr>MaxActive = 10, IdleTimeout = 50,
               idle = [\<lparr>pc = \<lparr>Client = 1\<rparr>, t = 7\<rparr>, \<lparr>pc = \<lparr>Client = 2\<rparr>, t = 5\<rparr>],
               Active = 1, cond = True\<rparr>,
       errored = {1}, closed = [], signalled = 1, dialed = 2\<rparr>"
  using Close_effect [of 7 "\<lparr>Client = 1\<rparr>"
      "\<lparr>pool = \<lparr>MaxActive = 10, IdleTimeout = 50, idle = [\<lparr>pc = \<lparr>Client = 2\<rparr>, t = 5\<rparr>],
               Active = 2, cond = True\<rparr>,
       errored = {1}, closed = [], signalled = 0, dialed = 2\<rparr>"]
  by simp

section \<open>Get\<close>

lemma Get_locked_Cons:
  "idle (pool w) = v # vs \<Longrightarrow>
   Get_locked w =
     (w\<lparr>pool := (pool w)\<lparr>idle := vs, Active := Active (pool w) + 1\<rparr>\<rparr>,
      Reuse \<lparr>Client = Client (pc v)\<rparr>)"
  by (simp add: Get_locked_def first_def)

lemma Get_locked_Dial:
  "idle (pool w) = [] \<Longrightarrow> MaxActive (pool w) = 0 \<or> Active (pool w) < MaxActive (pool w) \<Longrightarrow>
   Get_locked w = (w\<lparr>pool := (pool w)\<lparr>Active := Active (pool w) + 1\<rparr>\<rparr>, Dial)"
  by (simp add: Get_locked_def first_def)

lemma Get_locked_Wait:
  "idle (pool w) = [] \<Longrightarrow> MaxActive (pool w) \<noteq> 0 \<Longrightarrow> MaxActive (pool w) \<le> Active (pool w) \<Longrightarrow>
   Get_locked w = (w\<lparr>pool := (pool w)\<lparr>cond := True\<rparr>\<rparr>, Wait)"
  by (simp add: Get_locked_def first_def)

lemma Get_loop_Cons:
  "idle (pool w) = v # vs \<Longrightarrow>
   Get_loop env d w =
     (w\<lparr>pool := (pool w)\<lparr>idle := vs, Active := Active (pool w) + 1\<rparr>\<rparr>,
      Handle \<lparr>Client = Client (pc v)\<rparr>)"
  by (cases env) (simp_all add: Get_locked_Cons)







text \<open>
  C4. A handle is released at \<open>now1\<close> and \<open>Get\<close> is called at \<open>now2\<close> with nothing in
  between. If the client is not errored and the idle timeout is off or has not run out,
  \<open>Get\<close> returns a handle of the same client, whatever the rest of the idle list, the
  capacity and the outcome a dial would have.
\<close>

theorem Close_then_Get:
  assumes "Client h \<notin> errored w"
    and "IdleTimeout (pool w) \<le> 0 \<or> now2 < now1 + IdleTimeout (pool w)"
  shows "snd (Get env now2 d (Close now1 h w)) = Handle \<lparr>Client = Client h\<rparr>"
proof -
  let ?w1 = "Close now1 h w"
  have "idle (pool ?w1) = \<lparr>pc = h, t = now1\<rparr> # idle (pool w)"
    and "errored ?w1 = errored w" and "IdleTimeout (pool ?w1) = IdleTimeout (pool w)"
    by (simp_all add: Close_def put_def release_def Let_def)
  then have "\<exists>vs. idle (pool (purge now2 ?w1)) = \<lparr>pc = h, t = now1\<rparr> # vs"
    using assms by (auto simp add: purge_keeps)
  then obtain vs where "idle (pool (purge now2 ?w1)) = \<lparr>pc = h, t = now1\<rparr> # vs" ..
  then show ?thesis by (simp add: Get_def Get_loop_Cons)
qed

theorem Close_then_Get_witness:
  "snd (Get [] 120 (Inl ''refused'') (Close 100 \<lparr>Client = 3\<rparr>
      \<lparr>pool = \<lparr>MaxActive = 2, IdleTimeout = 50, idle = [\<lparr>pc = \<lparr>Client = 4\<rparr>, t = 90\<rparr>],
               Active = 1, cond = False\<rparr>,
       errored = {}, closed = [], signalled = 0, dialed = 2\<rparr>))
   = Handle \<lparr>Client = 3\<rparr>"
  using Close_then_Get [of "\<lparr>Client = 3\<rparr>"
      "\<lparr>pool = \<lparr>MaxActive = 2, IdleTimeout = 50, idle = [\<lparr>pc = \<lparr>Client = 4\<rparr>, t = 90\<rparr>],
               Active = 1, cond = False\<rparr>,
       errored = {}, closed = [], signalled = 0, dialed = 2\<rparr>" 120 100 "[]" "Inl ''refused''"]
  by simp





text \<open>
  C1 at a failing input. A pool made with an idle timeout of zero: a handle whose client
  is errored is released, and the next \<open>Get\<close> hands the same client out, still errored.
\<close>

theorem Get_returns_errored:
  "snd (Get [] 100 (Inr 9 :: string + client) (Close 90 \<lparr>Client = 1\<rparr>
      \<lparr>pool = \<lparr>MaxActive = 10, IdleTimeout = 0, idle = [], Active = 1, cond = False\<rparr>,
       errored = {1}, closed = [], signalled = 0, dialed = 1\<rparr>)) = Handle \<lparr>Client = 1\<rparr>
   \<and> 1 \<in> errored (fst (Get [] 100 (Inr 9 :: string + client) (Close 90 \<lparr>Client = 1\<rparr>
      \<lparr>pool = \<lparr>MaxActive = 10, IdleTimeout = 0, idle = [], Active = 1, cond = False\<rparr>,
       errored = {1}, closed = [], signalled = 0, dialed = 1\<rparr>)))"
  by (simp add: Get_def purge_def Get_locked_def first_def Close_def put_def release_def)

text \<open>The same with a positive idle timeout, for a \<open>Get\<close> that had to wait: the purge ran
  before the wait, and the pass after the wake-up takes the front of the idle list as it
  is.\<close>

lemma Get_woken_returns_errored:
  "snd (Get [Close 101 \<lparr>Client = 1\<rparr>] 100 (Inr 9 :: string + client)
      \<lparr>pool = \<lparr>MaxActive = 1, IdleTimeout = 50, idle = [], Active = 1, cond = False\<rparr>,
       errored = {1}, closed = [], signalled = 0, dialed = 1\<rparr>) = Handle \<lparr>Client = 1\<rparr>"
  by (simp add: Get_def purge_def Get_locked_def first_def Close_def put_def release_def)

section \<open>The accounting of Active\<close>

lemma Get_locked_effect:
  "Get_locked w = (w1, dcs) \<Longrightarrow>
   MaxActive (pool w1) = MaxActive (pool w) \<and>
   (case dcs of
      Reuse h \<Rightarrow> Active (pool w1) = Active (pool w) + 1 \<and> idle (pool w) \<noteq> [] \<and>
                 idle (pool w1) = tl (idle (pool w)) \<and> cond (pool w1) = cond (pool w)
    | Dial \<Rightarrow> Active (pool w1) = Active (pool w) + 1 \<and> idle (pool w) = [] \<and>
              idle (pool w1) = [] \<and> cond (pool w1) = cond (pool w) \<and>
              (MaxActive (pool w) = 0 \<or> Active (pool w) < MaxActive (pool w))
    | Wait \<Rightarrow> Active (pool w1) = Active (pool w) \<and> idle (pool w1) = idle (pool w) \<and>
              cond (pool w1))"
  by (auto simp add: Get_locked_def first_def split: if_splits)

lemma release_fields:
  "pool (release w) = (pool w)\<lparr>Active := Active (pool w) - 1\<rparr>"
  "errored (release w) = errored w"
  "closed (release w) = closed w"
  "dialed (release w) = dialed w"
  by (simp_all add: release_def Let_def)

lemma Close_fields:
  "pool (Close now h w) =
     (pool w)\<lparr>idle := \<lparr>pc = h, t = now\<rparr> # idle (pool w), Active := Active (pool w) - 1\<rparr>"
  "errored (Close now h w) = errored w"
  "closed (Close now h w) = closed w"
  "dialed (Close now h w) = dialed w"
  by (simp_all add: Close_def put_def release_fields)

lemma Get_dial_fields:
  "pool (fst (Get_dial d w)) =
     (case d of Inl err \<Rightarrow> (pool w)\<lparr>Active := Active (pool w) - 1\<rparr> | Inr dc \<Rightarrow> pool w)"
  "errored (fst (Get_dial d w)) = errored w"
  "closed (fst (Get_dial d w)) = closed w"
  "snd (Get_dial d w) = (case d of Inl err \<Rightarrow> DialError err | Inr dc \<Rightarrow> Handle \<lparr>Client = dc\<rparr>)"
  by (simp_all add: Get_dial_def Let_def release_fields split: sum.split)

lemma purge_length: "length (idle (pool (purge now w))) \<le> length (idle (pool w))"
  by (simp add: purge_keeps)

lemma after_pass_accounted:
  assumes "Get_locked w = (w1, dcs)"
    and "Active (pool w) = int (length (held s)) + int (dialing s)"
    and "0 < MaxActive (pool w) \<longrightarrow>
           Active (pool w) + int (length (idle (pool w))) \<le> MaxActive (pool w)"
    and "0 < parked s \<longrightarrow> cond (pool w)"
  shows "accounted (after_pass s (w1, dcs))"
    and "MaxActive (pool (shared (after_pass s (w1, dcs)))) = MaxActive (pool w)"
proof -
  note eff = Get_locked_effect [OF assms(1)]
  show "MaxActive (pool (shared (after_pass s (w1, dcs)))) = MaxActive (pool w)"
    using eff by (cases dcs) (simp_all add: after_pass_def)
  show "accounted (after_pass s (w1, dcs))"
  proof (cases dcs)
    case (Reuse h)
    with eff have "idle (pool w) \<noteq> []" "idle (pool w1) = tl (idle (pool w))" by simp_all
    then have "int (length (idle (pool w1))) = int (length (idle (pool w))) - 1"
      by (cases "idle (pool w)") simp_all
    with Reuse eff assms(2-4) show ?thesis by (auto simp add: accounted_def after_pass_def)
  next
    case Dial
    with eff assms(2-4) show ?thesis by (auto simp add: accounted_def after_pass_def)
  next
    case Wait
    with eff assms(2-4) show ?thesis by (auto simp add: accounted_def after_pass_def)
  qed
qed

lemma step_accounted:
  assumes "accounted s" and "step e s = Some s'"
  shows "accounted s' \<and> MaxActive (pool (shared s')) = MaxActive (pool (shared s))"
proof (cases e)
  case (Enter now)
  obtain w1 dcs where gl: "Get_locked (purge now (shared s)) = (w1, dcs)"
    by (cases "Get_locked (purge now (shared s))")
  have "int (length (idle (pool (purge now (shared s))))) \<le> int (length (idle (pool (shared s))))"
    using purge_length [of now "shared s"] by simp
  with assms(1) have pre:
    "Active (pool (purge now (shared s))) = int (length (held s)) + int (dialing s)"
    "0 < MaxActive (pool (purge now (shared s))) \<longrightarrow>
       Active (pool (purge now (shared s))) + int (length (idle (pool (purge now (shared s)))))
         \<le> MaxActive (pool (purge now (shared s)))"
    "0 < parked s \<longrightarrow> cond (pool (purge now (shared s)))"
    by (auto simp add: accounted_def purge_other)
  from after_pass_accounted [OF gl pre] assms(2) Enter gl show ?thesis
    by (simp add: purge_other)
next
  case Wake
  with assms(2) have pk: "0 < parked s" by (simp split: if_splits)
  obtain w1 dcs where gl: "Get_locked (shared s) = (w1, dcs)"
    by (cases "Get_locked (shared s)")
  let ?s = "s\<lparr>parked := parked s - 1\<rparr>"
  from assms(1) pk have pre:
    "Active (pool (shared s)) = int (length (held ?s)) + int (dialing ?s)"
    "0 < MaxActive (pool (shared s)) \<longrightarrow>
       Active (pool (shared s)) + int (length (idle (pool (shared s))))
         \<le> MaxActive (pool (shared s))"
    "0 < parked ?s \<longrightarrow> cond (pool (shared s))"
    by (auto simp add: accounted_def)
  from after_pass_accounted [OF gl pre] assms(2) Wake gl pk show ?thesis by simp
next
  case (Dialed d)
  with assms(2) have dl: "0 < dialing s" by (simp split: if_splits)
  obtain w1 r where gd: "Get_dial d (shared s) = (w1, r)" by (cases "Get_dial d (shared s)")
  from Get_dial_fields(1,4) [of d "shared s"] gd have
    w1: "pool w1 = (case d of Inl err \<Rightarrow> (pool (shared s))\<lparr>Active := Active (pool (shared s)) - 1\<rparr>
                    | Inr dc \<Rightarrow> pool (shared s))"
    and r: "r = (case d of Inl err \<Rightarrow> DialError err | Inr dc \<Rightarrow> Handle \<lparr>Client = dc\<rparr>)"
    by simp_all
  show ?thesis
  proof (cases d)
    case (Inl err)
    with Dialed assms dl gd w1 r show ?thesis by (auto simp add: accounted_def)
  next
    case (Inr dc)
    with Dialed assms dl gd w1 r show ?thesis by (auto simp add: accounted_def)
  qed
next
  case (Release h now)
  with assms(2) have hh: "h \<in> set (held s)" by (simp split: if_splits)
  then have "length (remove1 h (held s)) = length (held s) - 1"
    by (simp add: length_remove1)
  moreover from hh have "0 < length (held s)" by (cases "held s") auto
  ultimately have "int (length (remove1 h (held s))) = int (length (held s)) - 1" by linarith
  with Release assms hh show ?thesis
    by (auto simp add: Close_fields accounted_def)
next
  case (Fail c)
  with assms show ?thesis by (auto simp add: accounted_def)
qed

lemma run_accounted:
  "accounted s \<Longrightarrow> run es s = Some s' \<Longrightarrow>
   accounted s' \<and> MaxActive (pool (shared s')) = MaxActive (pool (shared s))"
proof (induction es arbitrary: s)
  case Nil
  then show ?case by simp
next
  case (Cons e es)
  from Cons.prems(2) obtain s1 where s1: "step e s = Some s1" "run es s1 = Some s'"
    by (simp split: option.splits)
  from step_accounted [OF Cons.prems(1) s1(1)] Cons.IH [OF _ s1(2)] show ?case by simp
qed

lemma run_take:
  "run es s = Some s' \<Longrightarrow> \<exists>s1. run (take n es) s = Some s1"
proof (induction es arbitrary: s n)
  case Nil
  then show ?case by simp
next
  case (Cons e es)
  from Cons.prems obtain s1 where s1: "step e s = Some s1" "run es s1 = Some s'"
    by (simp split: option.splits)
  show ?case
  proof (cases n)
    case 0
    then show ?thesis by simp
  next
    case (Suc m)
    with s1 Cons.IH [OF s1(2), of m] show ?thesis by simp
  qed
qed

lemma start_accounted: "idle p = [] \<Longrightarrow> Active p = 0 \<Longrightarrow> accounted (start p)"
  by (simp add: accounted_def start_def)

text \<open>
  C2. Start from a pool that has not been used (no idle connection, \<open>Active = 0\<close>) and
  run any sequence of atomic steps of any number of goroutines calling \<open>Get\<close> and closing
  handles they hold, each handle at most once. After every prefix of the sequence,
  \<open>Active\<close> is not negative, and it is at most \<open>MaxActive\<close> when \<open>MaxActive > 0\<close>.
\<close>

theorem Active_bounds:
  assumes "idle p = []" and "Active p = 0"
    and "run es (start p) = Some s'"
  shows "\<exists>s. run (take n es) (start p) = Some s
           \<and> 0 \<le> Active (pool (shared s))
           \<and> (0 < MaxActive p \<longrightarrow> Active (pool (shared s)) \<le> MaxActive p)"
proof -
  from run_take [OF assms(3)] obtain s where s: "run (take n es) (start p) = Some s" ..
  from run_accounted [OF start_accounted [OF assms(1,2)] s]
  have "accounted s" and "MaxActive (pool (shared s)) = MaxActive p"
    by (simp_all add: start_def)
  then have "0 \<le> Active (pool (shared s))"
    and "0 < MaxActive p \<longrightarrow> Active (pool (shared s)) \<le> MaxActive p"
    by (auto simp add: accounted_def)
  with s show ?thesis by blast
qed

theorem Active_bounds_witness:
  "0 \<le> Active (pool (shared (the (run
       (take 3 [Enter 1, Dialed (Inr 5 :: string + client), Enter 2, Release \<lparr>Client = 5\<rparr> 3, Wake])
       (start ((CreatePool 50)\<lparr>MaxActive := 1\<rparr>))))))
   \<and> Active (pool (shared (the (run
       (take 3 [Enter 1, Dialed (Inr 5 :: string + client), Enter 2, Release \<lparr>Client = 5\<rparr> 3, Wake])
       (start ((CreatePool 50)\<lparr>MaxActive := 1\<rparr>)))))) \<le> 1"
proof -
  let ?es = "[Enter 1, Dialed (Inr 5 :: string + client), Enter 2, Release \<lparr>Client = 5\<rparr> 3, Wake]"
  let ?p = "(CreatePool 50)\<lparr>MaxActive := 1\<rparr>"
  have r: "run ?es (start ?p) =
      Some \<lparr>shared = \<lparr>pool = \<lparr>MaxActive = 1, IdleTimeout = 50, idle = [], Active = 1, cond = True\<rparr>,
                        errored = {}, closed = [], signalled = 1, dialed = 1\<rparr>,
            held = [\<lparr>Client = 5\<rparr>], dialing = 0, parked = 0\<rparr>"
    by (simp add: start_def CreatePool_def after_pass_def Get_locked_def first_def purge_def
        Get_dial_def Close_def put_def release_def Let_def)
  have "idle ?p = []" and "Active ?p = 0" and "MaxActive ?p = 1"
    by (simp_all add: CreatePool_def)
  with Active_bounds [OF this(1,2) r, of 3] show ?thesis by auto
qed

section \<open>The order of the idle list\<close>

lemma Get_locked_idle: "\<exists>k. idle (pool (fst (Get_locked w))) = drop k (idle (pool w))"
proof -
  obtain w1 dcs where gl: "Get_locked w = (w1, dcs)" by (cases "Get_locked w")
  note eff = Get_locked_effect [OF gl]
  show ?thesis
  proof (cases dcs)
    case (Reuse h)
    with eff have "idle (pool w1) = drop 1 (idle (pool w))" by (simp add: drop_Suc)
    with gl show ?thesis by auto
  next
    case Dial
    with eff have "idle (pool w1) = drop 0 (idle (pool w))" by simp
    with gl show ?thesis by (metis fst_conv)
  next
    case Wait
    with eff have "idle (pool w1) = drop 0 (idle (pool w))" by simp
    with gl show ?thesis by (metis fst_conv)
  qed
qed

lemma purge_filter:
  "idle (pool (purge now w)) =
     filter (\<lambda>v. IdleTimeout (pool w) \<le> 0
                \<or> (Client (pc v) \<notin> errored w \<and> now < t v + IdleTimeout (pool w)))
       (idle (pool w))"
  by (simp add: purge_keeps)

lemma shared_after_pass: "shared (after_pass s r) = fst r"
proof -
  obtain w1 dcs where r: "r = (w1, dcs)" by (cases r)
  show ?thesis unfolding r by (cases dcs) (simp_all add: after_pass_def)
qed

lemma step_idle:
  assumes "step e s = Some s1"
  shows "(\<exists>h now. e = Release h now
            \<and> idle (pool (shared s1)) = \<lparr>pc = h, t = now\<rparr> # idle (pool (shared s)))
         \<or> (release_times [e] = []
            \<and> (\<exists>P k. idle (pool (shared s1)) = drop k (filter P (idle (pool (shared s))))))"
proof -
  have keep: ?thesis
    if "release_times [e] = []" and "idle (pool (shared s1)) = drop k (filter P (idle (pool (shared s))))"
    for P k
  proof -
    from that(2) have "\<exists>P k. idle (pool (shared s1)) = drop k (filter P (idle (pool (shared s))))"
      by (intro exI)
    with that(1) show ?thesis by simp
  qed
  have same: ?thesis
    if "release_times [e] = []" and "idle (pool (shared s1)) = drop k (idle (pool (shared s)))"
    for k
  proof -
    from that(2) have "idle (pool (shared s1)) = drop k (filter (\<lambda>v. True) (idle (pool (shared s))))"
      by simp
    with that(1) show ?thesis by (rule keep)
  qed
  show ?thesis
  proof (cases e)
    case (Enter now)
    from Get_locked_idle [of "purge now (shared s)"] obtain k where
      "idle (pool (fst (Get_locked (purge now (shared s))))) = drop k (idle (pool (purge now (shared s))))" ..
    with assms Enter have "idle (pool (shared s1)) = drop k (idle (pool (purge now (shared s))))"
      by (auto simp add: shared_after_pass)
    then have "idle (pool (shared s1)) =
        drop k (filter (\<lambda>v. IdleTimeout (pool (shared s)) \<le> 0
                \<or> (Client (pc v) \<notin> errored (shared s) \<and> now < t v + IdleTimeout (pool (shared s))))
          (idle (pool (shared s))))"
      by (simp only: purge_filter)
    moreover from Enter have "release_times [e] = []" by simp
    ultimately show ?thesis by (rule keep [rotated])
  next
    case Wake
    from Get_locked_idle [of "shared s"] obtain k where
      "idle (pool (fst (Get_locked (shared s)))) = drop k (idle (pool (shared s)))" ..
    with assms Wake have "idle (pool (shared s1)) = drop k (idle (pool (shared s)))"
      by (auto simp add: shared_after_pass split: if_splits)
    moreover from Wake have "release_times [e] = []" by simp
    ultimately show ?thesis by (rule same [rotated])
  next
    case (Dialed d)
    obtain w1 r where gd: "Get_dial d (shared s) = (w1, r)" by (cases "Get_dial d (shared s)")
    from Get_dial_fields(1) [of d "shared s"] gd have "idle (pool w1) = idle (pool (shared s))"
      by (simp split: sum.splits)
    with assms Dialed gd have "idle (pool (shared s1)) = drop 0 (idle (pool (shared s)))"
      by (auto split: if_splits result.splits)
    moreover from Dialed have "release_times [e] = []" by simp
    ultimately show ?thesis by (rule same [rotated])
  next
    case (Release h now)
    with assms show ?thesis by (auto simp add: Close_fields split: if_splits)
  next
    case (Fail c)
    with assms have "idle (pool (shared s1)) = drop 0 (idle (pool (shared s)))"
      by auto
    moreover from Fail have "release_times [e] = []" by simp
    ultimately show ?thesis by (rule same [rotated])
  qed
qed

lemma release_times_append:
  "release_times (es1 @ es2) = release_times es1 @ release_times es2"
  by (induction es1 rule: release_times.induct) simp_all

lemma run_sorted:
  assumes "sorted_wrt (\<ge>) (map t (idle (pool (shared s))))"
    and "\<forall>v \<in> set (idle (pool (shared s))). \<forall>x \<in> set (release_times es). t v \<le> x"
    and "sorted (release_times es)"
    and "run es s = Some s'"
  shows "sorted_wrt (\<ge>) (map t (idle (pool (shared s'))))"
  using assms
proof (induction es arbitrary: s)
  case Nil
  then show ?case by simp
next
  case (Cons e es)
  from Cons.prems(4) obtain s1 where s1: "step e s = Some s1" "run es s1 = Some s'"
    by (simp split: option.splits)
  from step_idle [OF s1(1)] show ?case
  proof
    assume "\<exists>h now. e = Release h now
            \<and> idle (pool (shared s1)) = \<lparr>pc = h, t = now\<rparr> # idle (pool (shared s))"
    then obtain h now where e: "e = Release h now"
      and i1: "idle (pool (shared s1)) = \<lparr>pc = h, t = now\<rparr> # idle (pool (shared s))" by blast
    from e Cons.prems(3) have srt: "sorted (release_times es)"
      and lo: "\<forall>x \<in> set (release_times es). now \<le> x" by simp_all
    from e Cons.prems(2) have old: "\<forall>v \<in> set (idle (pool (shared s))). t v \<le> now"
      and rest: "\<forall>v \<in> set (idle (pool (shared s))). \<forall>x \<in> set (release_times es). t v \<le> x"
      by simp_all
    from i1 old Cons.prems(1) have a: "sorted_wrt (\<ge>) (map t (idle (pool (shared s1))))"
      by simp
    from i1 rest lo have b:
      "\<forall>v \<in> set (idle (pool (shared s1))). \<forall>x \<in> set (release_times es). t v \<le> x"
      by simp
    from Cons.IH [OF a b srt s1(2)] show ?thesis .
  next
    assume "release_times [e] = []
            \<and> (\<exists>P k. idle (pool (shared s1)) = drop k (filter P (idle (pool (shared s)))))"
    then obtain P k where e: "release_times [e] = []"
      and i1: "idle (pool (shared s1)) = drop k (filter P (idle (pool (shared s))))" by blast
    from e have rt: "release_times (e # es) = release_times es"
      using release_times_append [of "[e]" es] by simp
    have a: "sorted_wrt (\<ge>) (map t (idle (pool (shared s1))))"
      unfolding i1 drop_map [symmetric]
      by (rule sorted_wrt_drop) (simp add: sorted_wrt_map sorted_wrt_filter Cons.prems(1) [unfolded sorted_wrt_map])
    have "set (idle (pool (shared s1))) \<subseteq> set (idle (pool (shared s)))"
      unfolding i1 using set_drop_subset [of k "filter P (idle (pool (shared s)))"] by auto
    with Cons.prems(2) rt have b:
      "\<forall>v \<in> set (idle (pool (shared s1))). \<forall>x \<in> set (release_times es). t v \<le> x"
      by auto
    from Cons.prems(3) rt have srt: "sorted (release_times es)" by simp
    from Cons.IH [OF a b srt s1(2)] show ?thesis .
  qed
qed

text \<open>
  C9. Start from a pool with an empty idle list and run any sequence of atomic steps in
  which the clock readings taken by \<open>put\<close> do not go back. After every prefix of the
  sequence the timestamps of the idle list are in descending order from the front: the
  purge, the removal of the front entry by \<open>Get\<close> and the prepending by \<open>Close\<close> all
  keep the order.
\<close>

theorem idle_sorted:
  assumes "idle p = []"
    and "sorted (release_times es)"
    and "run es (start p) = Some s'"
  shows "\<exists>s. run (take n es) (start p) = Some s
           \<and> sorted_wrt (\<ge>) (map t (idle (pool (shared s))))"
proof -
  from run_take [OF assms(3)] obtain s where s: "run (take n es) (start p) = Some s" ..
  have "release_times es = release_times (take n es) @ release_times (drop n es)"
    using release_times_append [of "take n es" "drop n es"] by simp
  with assms(2) have srt: "sorted (release_times (take n es))" by (simp add: sorted_append)
  have "sorted_wrt (\<ge>) (map t (idle (pool (shared (start p)))))"
    and "\<forall>v \<in> set (idle (pool (shared (start p)))).
          \<forall>x \<in> set (release_times (take n es)). t v \<le> x"
    using assms(1) by (simp_all add: start_def)
  from run_sorted [OF this srt s] s show ?thesis by blast
qed

theorem idle_sorted_witness:
  "sorted_wrt (\<ge>) (map t (idle (pool (shared (the (run
       (take 6 [Enter 1, Dialed (Inr 5 :: string + client), Enter 2, Dialed (Inr 6),
                Release \<lparr>Client = 5\<rparr> 3, Release \<lparr>Client = 6\<rparr> 4])
       (start (CreatePool 50))))))))"
proof -
  let ?es = "[Enter 1, Dialed (Inr 5 :: string + client), Enter 2, Dialed (Inr 6),
              Release \<lparr>Client = 5\<rparr> 3, Release \<lparr>Client = 6\<rparr> 4]"
  have r: "run ?es (start (CreatePool 50)) =
      Some \<lparr>shared = \<lparr>pool = \<lparr>MaxActive = 10, IdleTimeout = 50,
                                idle = [\<lparr>pc = \<lparr>Client = 6\<rparr>, t = 4\<rparr>, \<lparr>pc = \<lparr>Client = 5\<rparr>, t = 3\<rparr>],
                                Active = 0, cond = False\<rparr>,
                        errored = {}, closed = [], signalled = 0, dialed = 2\<rparr>,
            held = [], dialing = 0, parked = 0\<rparr>"
    by (simp add: start_def CreatePool_def after_pass_def Get_locked_def first_def purge_def
        Get_dial_def Close_def put_def release_def Let_def)
  have "idle (CreatePool 50) = []" by (simp add: CreatePool_def)
  moreover have "sorted (release_times ?es)" by simp
  ultimately show ?thesis using idle_sorted [OF _ _ r, of 6] by auto
qed

section \<open>Idle expiry\<close>

lemma Get_loop_Nil_result:
  assumes "snd (Get_loop [] d w) = Handle h"
  shows "(\<exists>v \<in> set (idle (pool w)). Client (pc v) = Client h) \<or> d = Inr (Client h)"
proof (cases "idle (pool w)")
  case Nil
  with assms show ?thesis
    by (auto simp add: Get_locked_def first_def Get_dial_fields split: if_splits sum.splits)
next
  case (Cons v vs)
  with assms show ?thesis by (auto simp add: Get_locked_Cons)
qed

text \<open>What does hold of the errored flag: with a positive idle timeout, a \<open>Get\<close> that
  does not have to wait hands out from the idle list only clients whose flag was not set
  when it purged.\<close>

lemma Get_unwoken_not_errored:
  assumes "0 < IdleTimeout (pool w)" and "snd (Get [] now d w) = Handle h"
    and "d \<noteq> Inr (Client h)"
  shows "Client h \<notin> errored w"
proof -
  from assms(2) have "snd (Get_loop [] d (purge now w)) = Handle h" by (simp add: Get_def)
  from Get_loop_Nil_result [OF this] assms(3)
  obtain v where "v \<in> set (idle (pool (purge now w)))" "Client (pc v) = Client h" by blast
  with assms(1) show ?thesis by (auto simp add: purge_keeps)
qed

lemma Get_locked_clients:
  assumes "Get_locked w = (w1, dcs)"
  shows "set (idle (pool w1)) \<subseteq> set (idle (pool w))"
    and "dcs = Reuse h \<Longrightarrow> \<exists>v \<in> set (idle (pool w)). Client (pc v) = Client h"
proof -
  show "set (idle (pool w1)) \<subseteq> set (idle (pool w))"
  proof (cases "idle (pool w)")
    case Nil
    with assms show ?thesis by (auto simp add: Get_locked_def first_def split: if_splits)
  next
    case (Cons v vs)
    with assms show ?thesis by (auto simp add: Get_locked_Cons)
  qed
  show "\<exists>v \<in> set (idle (pool w)). Client (pc v) = Client h" if "dcs = Reuse h"
  proof (cases "idle (pool w)")
    case Nil
    with assms that show ?thesis by (auto simp add: Get_locked_def first_def split: if_splits)
  next
    case (Cons v vs)
    with assms that show ?thesis by (auto simp add: Get_locked_Cons)
  qed
qed

lemma after_pass_absent:
  assumes "Get_locked w = (w1, dcs)"
    and "\<forall>v \<in> set (idle (pool w)). Client (pc v) \<noteq> c"
  shows "\<forall>v \<in> set (idle (pool (shared (after_pass s (w1, dcs))))). Client (pc v) \<noteq> c"
    and "count_list (held (after_pass s (w1, dcs))) \<lparr>Client = c\<rparr> = count_list (held s) \<lparr>Client = c\<rparr>"
proof -
  from Get_locked_clients(1) [OF assms(1)] assms(2)
  show "\<forall>v \<in> set (idle (pool (shared (after_pass s (w1, dcs))))). Client (pc v) \<noteq> c"
    by (auto simp add: shared_after_pass)
  show "count_list (held (after_pass s (w1, dcs))) \<lparr>Client = c\<rparr> = count_list (held s) \<lparr>Client = c\<rparr>"
  proof (cases dcs)
    case (Reuse h)
    from Get_locked_clients(2) [OF assms(1) Reuse] assms(2) have "Client h \<noteq> c" by auto
    then have "h \<noteq> \<lparr>Client = c\<rparr>" by auto
    with Reuse show ?thesis by (simp add: after_pass_def)
  next
    case Dial
    then show ?thesis by (simp add: after_pass_def)
  next
    case Wait
    then show ?thesis by (simp add: after_pass_def)
  qed
qed

lemma count_list_remove1_le: "count_list (remove1 x xs) y \<le> count_list xs y"
  by (induction xs) auto

lemma purge_subset: "set (idle (pool (purge now w))) \<subseteq> set (idle (pool w))"
  by (auto simp add: purge_keeps)

lemma step_absent:
  assumes "\<forall>v \<in> set (idle (pool (shared s))). Client (pc v) \<noteq> c"
    and "\<not> reintroduces c e" and "step e s = Some s1"
  shows "(\<forall>v \<in> set (idle (pool (shared s1))). Client (pc v) \<noteq> c)
       \<and> count_list (held s1) \<lparr>Client = c\<rparr> \<le> count_list (held s) \<lparr>Client = c\<rparr>"
proof (cases e)
  case (Enter now)
  obtain w1 dcs where gl: "Get_locked (purge now (shared s)) = (w1, dcs)"
    by (cases "Get_locked (purge now (shared s))")
  from assms(1) purge_subset [of now "shared s"]
  have "\<forall>v \<in> set (idle (pool (purge now (shared s)))). Client (pc v) \<noteq> c" by blast
  from after_pass_absent [OF gl this, of s] assms(3) Enter gl show ?thesis by simp
next
  case Wake
  obtain w1 dcs where gl: "Get_locked (shared s) = (w1, dcs)"
    by (cases "Get_locked (shared s)")
  from after_pass_absent [OF gl assms(1), of "s\<lparr>parked := parked s - 1\<rparr>"] assms(3) Wake gl
  show ?thesis by (simp split: if_splits)
next
  case (Dialed d)
  obtain w1 r where gd: "Get_dial d (shared s) = (w1, r)" by (cases "Get_dial d (shared s)")
  from Get_dial_fields(1,4) [of d "shared s"] gd have
    w1: "idle (pool w1) = idle (pool (shared s))"
    and r: "r = (case d of Inl err \<Rightarrow> DialError err | Inr dc \<Rightarrow> Handle \<lparr>Client = dc\<rparr>)"
    by (simp_all split: sum.splits)
  from assms(2) Dialed have "d \<noteq> Inr c" by simp
  with assms(1,3) Dialed gd w1 r show ?thesis
    by (cases d) (auto split: if_splits)
next
  case (Release h now)
  with assms(2) have "Client h \<noteq> c" by simp
  with assms(1,3) Release show ?thesis
    by (auto simp add: Close_fields count_list_remove1_le split: if_splits)
next
  case (Fail c')
  with assms(1,3) show ?thesis by auto
qed

lemma run_absent:
  assumes "\<forall>v \<in> set (idle (pool (shared s))). Client (pc v) \<noteq> c"
    and "\<forall>e \<in> set es. \<not> reintroduces c e" and "run es s = Some s'"
  shows "(\<forall>v \<in> set (idle (pool (shared s'))). Client (pc v) \<noteq> c)
       \<and> count_list (held s') \<lparr>Client = c\<rparr> \<le> count_list (held s) \<lparr>Client = c\<rparr>"
  using assms
proof (induction es arbitrary: s)
  case Nil
  then show ?case by simp
next
  case (Cons e es)
  from Cons.prems(3) obtain s1 where s1: "step e s = Some s1" "run es s1 = Some s'"
    by (simp split: option.splits)
  from Cons.prems(2) have e: "\<not> reintroduces c e" and es: "\<forall>e \<in> set es. \<not> reintroduces c e"
    by simp_all
  from step_absent [OF Cons.prems(1) e s1(1)]
  have a: "\<forall>v \<in> set (idle (pool (shared s1))). Client (pc v) \<noteq> c"
    and b: "count_list (held s1) \<lparr>Client = c\<rparr> \<le> count_list (held s) \<lparr>Client = c\<rparr>" by simp_all
  from Cons.IH [OF a es s1(2)] b show ?case by simp
qed

lemma Get_locked_IdleTimeout: "IdleTimeout (pool (fst (Get_locked w))) = IdleTimeout (pool w)"
  by (simp add: Get_locked_def split: option.splits)

lemma step_IdleTimeout:
  assumes "step e s = Some s1"
  shows "IdleTimeout (pool (shared s1)) = IdleTimeout (pool (shared s))"
proof (cases e)
  case (Enter now)
  with assms have "shared s1 = fst (Get_locked (purge now (shared s)))"
    by (auto simp add: shared_after_pass)
  then show ?thesis by (simp add: Get_locked_IdleTimeout purge_other)
next
  case Wake
  with assms have "shared s1 = fst (Get_locked (shared s))"
    by (auto simp add: shared_after_pass split: if_splits)
  then show ?thesis by (simp add: Get_locked_IdleTimeout)
next
  case (Dialed d)
  obtain w1 r where gd: "Get_dial d (shared s) = (w1, r)" by (cases "Get_dial d (shared s)")
  from Get_dial_fields(1) [of d "shared s"] gd assms Dialed show ?thesis
    by (auto split: if_splits result.splits sum.splits)
next
  case (Release h now)
  with assms show ?thesis by (auto simp add: Close_fields split: if_splits)
next
  case (Fail c)
  with assms show ?thesis by auto
qed

lemma run_IdleTimeout:
  "run es s = Some s' \<Longrightarrow> IdleTimeout (pool (shared s')) = IdleTimeout (pool (shared s))"
proof (induction es arbitrary: s)
  case Nil
  then show ?case by simp
next
  case (Cons e es)
  from Cons.prems obtain s1 where s1: "step e s = Some s1" "run es s1 = Some s'"
    by (simp split: option.splits)
  from step_IdleTimeout [OF s1(1)] Cons.IH [OF s1(2)] show ?case by simp
qed

text \<open>A pool with a negative \<open>MaxActive\<close> never issues a handle, so nothing ever comes
  to its idle list.\<close>

lemma step_negative:
  assumes "MaxActive (pool (shared s)) < 0" and "idle (pool (shared s)) = []"
    and "Active (pool (shared s)) = 0" and "held s = []" and "dialing s = 0"
    and "step e s = Some s1"
  shows "MaxActive (pool (shared s1)) < 0 \<and> idle (pool (shared s1)) = []
       \<and> Active (pool (shared s1)) = 0 \<and> held s1 = [] \<and> dialing s1 = 0"
proof (cases e)
  case (Enter now)
  from assms(2) have e: "idle (pool (purge now (shared s))) = []" by (simp add: purge_keeps)
  with assms(1,3) have "Get_locked (purge now (shared s)) =
      ((purge now (shared s))\<lparr>pool := (pool (purge now (shared s)))\<lparr>cond := True\<rparr>\<rparr>, Wait)"
    by (intro Get_locked_Wait) (simp_all add: purge_other)
  with assms Enter e show ?thesis by (auto simp add: after_pass_def purge_other)
next
  case Wake
  from assms(1-3) have "Get_locked (shared s) =
      ((shared s)\<lparr>pool := (pool (shared s))\<lparr>cond := True\<rparr>\<rparr>, Wait)"
    by (intro Get_locked_Wait) simp_all
  with assms Wake show ?thesis by (auto simp add: after_pass_def split: if_splits)
next
  case (Dialed d)
  with assms show ?thesis by simp
next
  case (Release h now)
  with assms show ?thesis by simp
next
  case (Fail c)
  with assms show ?thesis by auto
qed

lemma run_negative:
  assumes "MaxActive (pool (shared s)) < 0" and "idle (pool (shared s)) = []"
    and "Active (pool (shared s)) = 0" and "held s = []" and "dialing s = 0"
    and "run es s = Some s'"
  shows "idle (pool (shared s')) = []"
  using assms
proof (induction es arbitrary: s)
  case Nil
  then show ?case by simp
next
  case (Cons e es)
  from Cons.prems(6) obtain s1 where s1: "step e s = Some s1" "run es s1 = Some s'"
    by (simp split: option.splits)
  from step_negative [OF Cons.prems(1-5) s1(1)] Cons.IH [OF _ _ _ _ _ s1(2)]
  show ?case by simp
qed

text \<open>In a pool in use, an idle connection means that there is room for one more
  active connection.\<close>

lemma idle_capacity:
  assumes "idle p = []" and "Active p = 0" and "run es (start p) = Some s"
    and "idle (pool (shared s)) \<noteq> []"
  shows "MaxActive (pool (shared s)) = 0 \<or> Active (pool (shared s)) < MaxActive (pool (shared s))"
proof -
  from run_accounted [OF start_accounted [OF assms(1,2)] assms(3)]
  have acc: "accounted s" and m: "MaxActive (pool (shared s)) = MaxActive p"
    by (simp_all add: start_def)
  have "\<not> MaxActive p < 0"
  proof
    assume "MaxActive p < 0"
    with assms(1,2) run_negative [of "start p" es s] assms(3)
    have "idle (pool (shared s)) = []" by (simp add: start_def)
    with assms(4) show False by simp
  qed
  moreover from assms(4) have "1 \<le> int (length (idle (pool (shared s))))"
    by (cases "idle (pool (shared s))") simp_all
  moreover from acc have "0 < MaxActive (pool (shared s)) \<longrightarrow>
      Active (pool (shared s)) + int (length (idle (pool (shared s)))) \<le> MaxActive (pool (shared s))"
    unfolding accounted_def by blast
  ultimately show ?thesis using m by linarith
qed

text \<open>
  C8, as amended. A pool with \<open>IdleTimeout > 0\<close> has been in use, in any interleaving,
  and every idle entry of client \<open>c\<close> is at least \<open>IdleTimeout\<close> old at \<open>now\<close>, when the
  next \<open>Get\<close> is called. The purge of that \<open>Get\<close> closes \<open>c\<close> unless \<open>c\<close> is errored, and
  takes its entries from the idle list. Whatever happens afterwards, in any interleaving
  in which \<open>c\<close> is neither released nor dialed again, \<open>c\<close> is not in the idle list and
  no \<open>Get\<close> hands out a handle of \<open>c\<close>. And when the purge leaves no idle connection, that
  \<open>Get\<close> does not wait: it dials.
\<close>

theorem expired_not_reused:
  assumes "idle p = []" and "Active p = 0" and "0 < IdleTimeout p"
    and "run es (start p) = Some s"
    and "\<forall>v \<in> set (idle (pool (shared s))). Client (pc v) = c \<longrightarrow> t v + IdleTimeout p \<le> now"
    and "\<exists>v \<in> set (idle (pool (shared s))). Client (pc v) = c"
    and "\<forall>e \<in> set es'. \<not> reintroduces c e"
    and "run (Enter now # es') s = Some s2"
  shows "(c \<notin> errored (shared s) \<longrightarrow>
            c \<in> set (drop (length (closed (shared s))) (closed (purge now (shared s)))))
       \<and> (\<forall>v \<in> set (idle (pool (shared s2))). Client (pc v) \<noteq> c)
       \<and> count_list (held s2) \<lparr>Client = c\<rparr> \<le> count_list (held s) \<lparr>Client = c\<rparr>
       \<and> (idle (pool (purge now (shared s))) = [] \<longrightarrow>
            (\<exists>s1. step (Enter now) s = Some s1 \<and> dialing s1 = dialing s + 1
                  \<and> held s1 = held s \<and> parked s1 = parked s))"
proof -
  let ?w = "shared s"
  from run_IdleTimeout [OF assms(4)] have it: "IdleTimeout (pool ?w) = IdleTimeout p"
    by (simp add: start_def)
  from assms(6) obtain v where v: "v \<in> set (idle (pool ?w))" "Client (pc v) = c" by blast
  have closed: "c \<in> set (drop (length (closed ?w)) (closed (purge now ?w)))" if "c \<notin> errored ?w"
  proof -
    from v assms(5) have "t v + IdleTimeout p \<le> now" by simp
    with v that it have "c \<in> set (map (\<lambda>v. Client (pc v))
        (filter (\<lambda>v. Client (pc v) \<notin> errored ?w \<and> t v + IdleTimeout (pool ?w) \<le> now)
           (idle (pool ?w))))" by force
    with assms(3) it show ?thesis by (simp add: purge_closes)
  qed
  have gone: "\<forall>v \<in> set (idle (pool (purge now ?w))). Client (pc v) \<noteq> c"
    using assms(3,5) it by (auto simp add: purge_keeps)
  obtain w1 dcs where gl: "Get_locked (purge now ?w) = (w1, dcs)"
    by (cases "Get_locked (purge now ?w)")
  let ?s1 = "after_pass s (w1, dcs)"
  from gl have s1: "step (Enter now) s = Some ?s1" by simp
  with assms(8) have r2: "run es' ?s1 = Some s2" by simp
  note ap = after_pass_absent [OF gl gone, of s]
  from run_absent [OF ap(1) assms(7) r2] ap(2)
  have later: "\<forall>v \<in> set (idle (pool (shared s2))). Client (pc v) \<noteq> c"
    "count_list (held s2) \<lparr>Client = c\<rparr> \<le> count_list (held s) \<lparr>Client = c\<rparr>" by simp_all
  have dials: "\<exists>s1. step (Enter now) s = Some s1 \<and> dialing s1 = dialing s + 1
                  \<and> held s1 = held s \<and> parked s1 = parked s"
    if e: "idle (pool (purge now ?w)) = []"
  proof -
    from v have "idle (pool ?w) \<noteq> []" by auto
    from idle_capacity [OF assms(1,2,4) this]
    have "MaxActive (pool (purge now ?w)) = 0
        \<or> Active (pool (purge now ?w)) < MaxActive (pool (purge now ?w))"
      by (simp add: purge_other)
    from Get_locked_Dial [OF e this] gl have "dcs = Dial" by simp
    with s1 show ?thesis by (simp add: after_pass_def)
  qed
  from closed later dials show ?thesis by blast
qed

theorem expired_not_reused_witness:
  "1 \<in> set (closed (purge 100
      \<lparr>pool = \<lparr>MaxActive = 10, IdleTimeout = 50, idle = [\<lparr>pc = \<lparr>Client = 1\<rparr>, t = 10\<rparr>],
               Active = 0, cond = False\<rparr>,
       errored = {}, closed = [], signalled = 0, dialed = 1\<rparr>))
   \<and> count_list [\<lparr>Client = 9\<rparr>] \<lparr>Client = 1\<rparr> = 0"
proof -
  let ?es = "[Enter 1, Dialed (Inr 1 :: string + client), Release \<lparr>Client = 1\<rparr> 10]"
  let ?es' = "[Dialed (Inr 9 :: string + client), Release \<lparr>Client = 9\<rparr> 120, Enter 130]"
  let ?s = "\<lparr>shared = \<lparr>pool = \<lparr>MaxActive = 10, IdleTimeout = 50,
                                   idle = [\<lparr>pc = \<lparr>Client = 1\<rparr>, t = 10\<rparr>],
                                   Active = 0, cond = False\<rparr>,
                       errored = {}, closed = [], signalled = 0, dialed = 1\<rparr>,
             held = [], dialing = 0, parked = 0\<rparr>"
  let ?s2 = "\<lparr>shared = \<lparr>pool = \<lparr>MaxActive = 10, IdleTimeout = 50, idle = [],
                                    Active = 1, cond = False\<rparr>,
                        errored = {}, closed = [1], signalled = 0, dialed = 2\<rparr>,
              held = [\<lparr>Client = 9\<rparr>], dialing = 0, parked = 0\<rparr>"
  have r1: "run ?es (start (CreatePool 50)) = Some ?s"
    by (simp add: start_def CreatePool_def after_pass_def Get_locked_def first_def purge_def
        Get_dial_def Close_def put_def release_def Let_def)
  have r2: "run (Enter 100 # ?es') ?s = Some ?s2"
    by (simp add: after_pass_def Get_locked_def first_def purge_def Client_Close_def
        Get_dial_def Close_def put_def release_def Let_def)
  have p: "idle (CreatePool 50) = []" "Active (CreatePool 50) = 0" "0 < IdleTimeout (CreatePool 50)"
    by (simp_all add: CreatePool_def)
  from expired_not_reused [OF p r1 _ _ _ r2, of 1] show ?thesis
    by (simp add: CreatePool_def)
qed

text \<open>The claim as it was stated fails for an expired connection whose client is
  errored: a client is dialed, fails, is released at time 10 and has long expired when
  \<open>Get\<close> is called at time 100; the purge drops it and \<open>Client.Close\<close> is never called.\<close>

theorem expired_errored_not_closed:
  "run [Enter 1, Dialed (Inr 1 :: string + client), Fail 1, Release \<lparr>Client = 1\<rparr> 10]
      (start (CreatePool 50))
   = Some \<lparr>shared = \<lparr>pool = \<lparr>MaxActive = 10, IdleTimeout = 50,
                                   idle = [\<lparr>pc = \<lparr>Client = 1\<rparr>, t = 10\<rparr>],
                                   Active = 0, cond = False\<rparr>,
                       errored = {1}, closed = [], signalled = 0, dialed = 1\<rparr>,
             held = [], dialing = 0, parked = 0\<rparr>
   \<and> run [Enter 1, Dialed (Inr 1 :: string + client), Fail 1, Release \<lparr>Client = 1\<rparr> 10,
           Enter 100]
      (start (CreatePool 50))
   = Some \<lparr>shared = \<lparr>pool = \<lparr>MaxActive = 10, IdleTimeout = 50, idle = [],
                                   Active = 1, cond = False\<rparr>,
                       errored = {1}, closed = [], signalled = 0, dialed = 1\<rparr>,
             held = [], dialing = 1, parked = 0\<rparr>"
  by (simp add: start_def CreatePool_def after_pass_def Get_locked_def first_def purge_def
      Get_dial_def Close_def put_def release_def Let_def)

section \<open>The range of Active\<close>

lemma step_Active:
  assumes "step e s = Some s1"
  shows "\<bar>Active (pool (shared s1)) - Active (pool (shared s))\<bar> \<le> 1"
proof (cases e)
  case (Enter now)
  obtain w1 dcs where gl: "Get_locked (purge now (shared s)) = (w1, dcs)"
    by (cases "Get_locked (purge now (shared s))")
  from Get_locked_effect [OF gl] assms Enter gl show ?thesis
    by (cases dcs) (auto simp add: shared_after_pass purge_other)
next
  case Wake
  obtain w1 dcs where gl: "Get_locked (shared s) = (w1, dcs)"
    by (cases "Get_locked (shared s)")
  from Get_locked_effect [OF gl] assms Wake gl show ?thesis
    by (cases dcs) (auto simp add: shared_after_pass split: if_splits)
next
  case (Dialed d)
  obtain w1 r where gd: "Get_dial d (shared s) = (w1, r)" by (cases "Get_dial d (shared s)")
  from Get_dial_fields(1) [of d "shared s"] gd assms Dialed show ?thesis
    by (auto split: if_splits result.splits sum.splits)
next
  case (Release h now)
  with assms show ?thesis by (auto simp add: Close_fields split: if_splits)
next
  case (Fail c)
  with assms show ?thesis by auto
qed

text \<open>\<open>Active\<close> moves by at most one per step, so in a sequence of fewer than \<open>2^63\<close>
  steps from \<open>Active = 0\<close> the 64-bit \<open>int\<close> of the program never wraps and is the
  integer of this model.\<close>

lemma run_Active:
  "run es s = Some s' \<Longrightarrow>
   \<bar>Active (pool (shared s')) - Active (pool (shared s))\<bar> \<le> int (length es)"
proof (induction es arbitrary: s)
  case Nil
  then show ?case by simp
next
  case (Cons e es)
  from Cons.prems obtain s1 where s1: "step e s = Some s1" "run es s1 = Some s'"
    by (simp split: option.splits)
  from step_Active [OF s1(1)] Cons.IH [OF s1(2)] show ?case by simp
qed

end
